theory Spec2Isabelle
  imports Main "HOL-Library.Word" "HOL-Library.Multiset"
begin

section \<open>The deinflection engine of ext/bg/js/deinflector.js\<close>

text \<open>
  The engine is the pair of classes \<^verbatim>\<open>Deinflection\<close> (a node of the search tree) and
  \<^verbatim>\<open>Deinflector\<close> (the facade that holds the rule table). The embedding keeps the
  source's structure:
  \<^item> a JavaScript string is the list of its UTF-16 code units, which is what
    \<^verbatim>\<open>length\<close>, \<^verbatim>\<open>endsWith\<close> and \<^verbatim>\<open>slice\<close> count;
  \<^item> an array is a list, \<^verbatim>\<open>push\<close> appends at the end;
  \<^item> the object \<^verbatim>\<open>reasons\<close> is the list of its (key, value) pairs in the order in
    which \<^verbatim>\<open>for (const reason in reasons)\<close> enumerates them (the keys of an object
    are distinct);
  \<^item> the promise returned by the definer either fulfils with a list of definitions or
    rejects: a value of a sum type, \<open>Inl\<close> for the rejection;
  \<^item> the method \<^verbatim>\<open>deinflect\<close> calls itself on every admissible child before any
    promise settles, with nothing that bounds the depth: the model counts the depth
    with fuel, and \<open>None\<close> says that the recursion did not bottom out within it (an
    engine would run out of call stack);
  \<^item> a child is pushed by the callback of its promise, so the order of \<^verbatim>\<open>children\<close>
    is the order in which those callbacks run: \<open>deinflect_timed\<close> follows it with a
    clock, \<open>deinflect\<close> is the same search with the children listed in the order in
    which their promises were created.
\<close>

subsection \<open>Data\<close>

type_synonym jsstring = "16 word list"

text \<open>A dictionary definition: the rule tags the engine reads, and the rest, opaque.\<close>

datatype 'a defn = Defn (drules: "jsstring list") (payload: 'a)

text \<open>A variant of the rule table, with the field names the code reads.\<close>

record variant =
  kanaIn :: jsstring
  kanaOut :: jsstring
  rulesIn :: "jsstring list"
  rulesOut :: "jsstring list"

type_synonym reason_table = "(jsstring \<times> variant list) list"

text \<open>
  The class \<^verbatim>\<open>Deinflection\<close>, fields in the order the constructor assigns them
  (\<open>node_term\<close> is the field \<^verbatim>\<open>term\<close>).
\<close>

datatype 'a deinflection =
  Deinflection
    (children: "'a deinflection list")
    (node_term: jsstring)
    (rules: "jsstring list")
    (reason: jsstring)
    (definitions: "'a defn list")

text \<open>\<^verbatim>\<open>new Deinflection(term, rules, reason)\<close>; the defaults are \<open>[]\<close> and \<open>''''\<close>.\<close>

definition new_Deinflection :: "jsstring \<Rightarrow> jsstring list \<Rightarrow> jsstring \<Rightarrow> 'a deinflection" where
  "new_Deinflection t rs r = Deinflection [] t rs r []"

text \<open>
  The object literal \<^verbatim>\<open>gather\<close> returns for a leaf has no \<^verbatim>\<open>source\<close>; every
  ancestor assigns one.
\<close>

record 'a path =
  root :: jsstring
  path_rules :: "jsstring list"
  path_definitions :: "'a defn list"
  reasons :: "jsstring list"
  source :: "jsstring option"

datatype error = DefinerRejected

type_synonym 'a definer = "jsstring \<Rightarrow> error + 'a defn list"

subsection \<open>Strings\<close>

definition endsWith :: "jsstring \<Rightarrow> jsstring \<Rightarrow> bool" where
  "endsWith s suffix \<longleftrightarrow>
     length suffix \<le> length s \<and> drop (length s - length suffix) s = suffix"

text \<open>
  \<^verbatim>\<open>s.slice(0, -n)\<close> for a length \<open>n\<close>: \<^verbatim>\<open>-0\<close> is \<open>0\<close>, so for \<open>n = 0\<close> the slice is
  \<^verbatim>\<open>s.slice(0, 0)\<close>, the empty string; otherwise the end is \<open>max (length s - n) 0\<close>.
\<close>

definition slice_neg :: "jsstring \<Rightarrow> nat \<Rightarrow> jsstring" where
  "slice_neg s n = (if n = 0 then [] else take (length s - n) s)"

subsection \<open>Self-validation\<close>

text \<open>The inner loop of \<^verbatim>\<open>validate\<close>: one rule against every definition, pushing matches.\<close>

fun push_matching :: "jsstring \<Rightarrow> 'a defn list \<Rightarrow> 'a defn list \<Rightarrow> 'a defn list" where
  "push_matching rule [] acc = acc"
| "push_matching rule (d # ds) acc =
     push_matching rule ds (if rule \<in> set (drules d) then acc @ [d] else acc)"

text \<open>The outer loop, over \<^verbatim>\<open>this.rules\<close>.\<close>

fun push_accepted :: "jsstring list \<Rightarrow> 'a defn list \<Rightarrow> 'a defn list \<Rightarrow> 'a defn list" where
  "push_accepted [] ds acc = acc"
| "push_accepted (rule # rs) ds acc = push_accepted rs ds (push_matching rule ds acc)"

text \<open>
  \<^verbatim>\<open>validate\<close>: the node after the definer's promise fulfils, with the boolean the
  callback returns; the rejection when the promise rejects.
\<close>

definition validate ::
  "'a definer \<Rightarrow> bool \<Rightarrow> 'a deinflection \<Rightarrow> error + ('a deinflection \<times> bool)" where
  "validate definer entry this =
     (case definer (node_term this) of
        Inl e \<Rightarrow> Inl e
      | Inr ds \<Rightarrow>
          (let accepted = (if entry then ds
                           else push_accepted (rules this) ds (definitions this));
               this' = Deinflection (children this) (node_term this) (rules this)
                         (reason this) accepted
           in Inr (this', length (definitions this') > 0)))"

subsection \<open>Rule expansion\<close>

definition allowed :: "bool \<Rightarrow> jsstring list \<Rightarrow> variant \<Rightarrow> bool" where
  "allowed entry rs v \<longleftrightarrow> entry \<or> list_ex (\<lambda>rule. rule \<in> set (rulesIn v)) rs"

text \<open>The loop over the variants of one reason: the children it constructs, in order.\<close>

fun expand_variants ::
  "bool \<Rightarrow> 'a deinflection \<Rightarrow> jsstring \<Rightarrow> variant list \<Rightarrow> 'a deinflection list" where
  "expand_variants entry this r [] = []"
| "expand_variants entry this r (v # vs) =
     (if \<not> allowed entry (rules this) v \<or> \<not> endsWith (node_term this) (kanaIn v)
      then expand_variants entry this r vs
      else
        (let t = slice_neg (node_term this) (length (kanaIn v)) @ kanaOut v
         in if length t = 0 then expand_variants entry this r vs
            else new_Deinflection t (rulesOut v) r # expand_variants entry this r vs))"

text \<open>The loop over the reasons.\<close>

fun expand :: "reason_table \<Rightarrow> bool \<Rightarrow> 'a deinflection \<Rightarrow> 'a deinflection list" where
  "expand [] entry this = []"
| "expand ((r, vs) # rest) entry this =
     expand_variants entry this r vs @ expand rest entry this"

subsection \<open>The search\<close>

text \<open>
  \<^verbatim>\<open>Promise.all\<close> over the children's promises: it rejects if one of them rejects;
  otherwise each callback has pushed its child when \<^verbatim>\<open>valid\<close> was true.
\<close>

fun retained :: "(error + ('a deinflection \<times> bool)) list \<Rightarrow> error + 'a deinflection list" where
  "retained [] = Inr []"
| "retained (Inl e # rest) = Inl e"
| "retained (Inr (child, valid) # rest) =
     (case retained rest of
        Inl e \<Rightarrow> Inl e
      | Inr cs \<Rightarrow> Inr (if valid then child # cs else cs))"

text \<open>
  The join at the end of \<^verbatim>\<open>deinflect\<close>. The callback of \<^verbatim>\<open>validate()\<close> ignores its
  argument \<^verbatim>\<open>valid\<close> and pushes \<^verbatim>\<open>new Deinflection(this.term, this.rules)\<close>. The
  source pushes each child when that child's promise fulfils; the list below is in the
  order in which the promises were created, and \<open>settle_timed\<close> below is the same join
  with the list in the order of the pushes. The two agree up to that order
  (\<open>deinflect_timed_shape\<close>).
\<close>

definition settle ::
  "error + ('a deinflection \<times> bool) \<Rightarrow> (error + ('a deinflection \<times> bool)) list \<Rightarrow>
   error + ('a deinflection \<times> bool)" where
  "settle validated results =
     (case validated of
        Inl e \<Rightarrow> Inl e
      | Inr (this, valid) \<Rightarrow>
          (case retained results of
             Inl e \<Rightarrow> Inl e
           | Inr cs \<Rightarrow>
               (let this' = Deinflection
                              (children this @ new_Deinflection (node_term this) (rules this) [] # cs)
                              (node_term this) (rules this) (reason this) (definitions this)
                in Inr (this', length (children this') > 0))))"

text \<open>
  \<^verbatim>\<open>Deinflection.deinflect(definer, reasons, entry)\<close>. The recursive calls are made
  inside the loops, before anything settles, so the call returns a promise only if
  every one of them does.
\<close>

fun deinflect ::
  "nat \<Rightarrow> 'a definer \<Rightarrow> reason_table \<Rightarrow> bool \<Rightarrow> 'a deinflection \<Rightarrow>
   (error + ('a deinflection \<times> bool)) option" where
  "deinflect 0 definer table entry this = None"
| "deinflect (Suc fuel) definer table entry this =
     (case those (map (deinflect fuel definer table False) (expand table entry this)) of
        None \<Rightarrow> None
      | Some results \<Rightarrow> Some (settle (validate definer entry this) results))"

subsection \<open>Flattening\<close>

fun gather :: "'a deinflection \<Rightarrow> 'a path list" where
  "gather (Deinflection cs t rs r ds) =
     (if length cs = 0
      then [\<lparr>root = t, path_rules = rs, path_definitions = ds, reasons = [], source = None\<rparr>]
      else concat (map (\<lambda>child.
             map (\<lambda>p. p\<lparr>path_definitions := path_definitions p @ ds,
                        reasons := (if length r > 0 then reasons p @ [r] else reasons p),
                        source := Some t\<rparr>)
                 (gather child)) cs))"

subsection \<open>The facade\<close>

text \<open>
  \<^verbatim>\<open>Deinflector.deinflect(term, definer)\<close>; the table is the field \<^verbatim>\<open>this.reasons\<close>,
  which \<^verbatim>\<open>setReasons\<close> replaces.
\<close>

definition Deinflector_deinflect ::
  "nat \<Rightarrow> reason_table \<Rightarrow> jsstring \<Rightarrow> 'a definer \<Rightarrow> (error + 'a path list) option" where
  "Deinflector_deinflect fuel table t definer =
     (case deinflect fuel definer table True (new_Deinflection t [] []) of
        None \<Rightarrow> None
      | Some (Inl e) \<Rightarrow> Some (Inl e)
      | Some (Inr (node, success)) \<Rightarrow> Some (Inr (if success then gather node else [])))"

subsection \<open>The order of the pushes\<close>

text \<open>
  The clock counts the turns of the promise job queue. Every lookup is issued at tick
  \<open>0\<close>, since the recursion is synchronous; the answer of a timed definer carries the
  tick at which its promise settles, which is the environment's choice. A callback
  passed to \<^verbatim>\<open>then\<close> runs one tick after its promise settles, and the promise \<^verbatim>\<open>then\<close>
  returned fulfils in that tick; \<^verbatim>\<open>Promise.all\<close> fulfils one tick after the last of its
  promises. Callbacks that run in the same tick are taken in the order in which their
  promises were created, which is the order of the queue when the lookups settle in
  that order.
\<close>

type_synonym 'a timed_definer = "jsstring \<Rightarrow> nat \<times> (error + 'a defn list)"

text \<open>The answers of a timed definer, without the ticks.\<close>

definition untimed :: "'a timed_definer \<Rightarrow> 'a definer" where
  "untimed d u = snd (d u)"

text \<open>\<^verbatim>\<open>Promise.all\<close> over the children's promises: the first rejection, or every result.\<close>

fun joined ::
  "(error + (nat \<times> 'a deinflection \<times> bool)) list \<Rightarrow> error + (nat \<times> 'a deinflection \<times> bool) list" where
  "joined [] = Inr []"
| "joined (Inl e # rest) = Inl e"
| "joined (Inr x # rest) = (case joined rest of Inl e \<Rightarrow> Inl e | Inr xs \<Rightarrow> Inr (x # xs))"

text \<open>
  The join with the clock; \<open>tick\<close> is the tick at which the definer's promise for the
  node's term settles. The callback of \<^verbatim>\<open>validate()\<close> pushes the stop-child at
  \<open>tick + 2\<close>; the callback of a child's promise runs one tick after that promise
  fulfils. The children are in the order of their pushes, and the node's own promise
  fulfils two ticks after the last of these callbacks.
\<close>

definition settle_timed ::
  "nat \<Rightarrow> error + ('a deinflection \<times> bool) \<Rightarrow> (error + (nat \<times> 'a deinflection \<times> bool)) list \<Rightarrow>
   error + (nat \<times> 'a deinflection \<times> bool)" where
  "settle_timed tick validated results =
     (case validated of
        Inl e \<Rightarrow> Inl e
      | Inr (this, valid) \<Rightarrow>
          (case joined results of
             Inl e \<Rightarrow> Inl e
           | Inr xs \<Rightarrow>
               (let calls = map (\<lambda>(fulfilled, child, valid). (Suc fulfilled, child, valid)) xs;
                    pushes = (tick + 2, new_Deinflection (node_term this) (rules this) []) #
                             map (\<lambda>(at, child, valid). (at, child))
                               (filter (\<lambda>(at, child, valid). valid) calls);
                    this' = Deinflection (children this @ map snd (sort_key fst pushes))
                              (node_term this) (rules this) (reason this) (definitions this);
                    all = Suc (fold max (map fst calls) (tick + 2))
                in Inr (Suc all, this', length (children this') > 0))))"

fun deinflect_timed ::
  "nat \<Rightarrow> 'a timed_definer \<Rightarrow> reason_table \<Rightarrow> bool \<Rightarrow> 'a deinflection \<Rightarrow>
   (error + (nat \<times> 'a deinflection \<times> bool)) option" where
  "deinflect_timed 0 definer table entry this = None"
| "deinflect_timed (Suc fuel) definer table entry this =
     (case those (map (deinflect_timed fuel definer table False) (expand table entry this)) of
        None \<Rightarrow> None
      | Some results \<Rightarrow>
          Some (settle_timed (fst (definer (node_term this)))
                  (validate (untimed definer) entry this) results))"

definition Deinflector_deinflect_timed ::
  "nat \<Rightarrow> reason_table \<Rightarrow> jsstring \<Rightarrow> 'a timed_definer \<Rightarrow> (error + 'a path list) option" where
  "Deinflector_deinflect_timed fuel table t definer =
     (case deinflect_timed fuel definer table True (new_Deinflection t [] []) of
        None \<Rightarrow> None
      | Some (Inl e) \<Rightarrow> Some (Inl e)
      | Some (Inr (fulfilled, node, success)) \<Rightarrow> Some (Inr (if success then gather node else [])))"

subsection \<open>Notions the properties are stated with\<close>

text \<open>Every node of a tree, the root first.\<close>

fun nodes :: "'a deinflection \<Rightarrow> 'a deinflection list" where
  "nodes (Deinflection cs t rs r ds) = Deinflection cs t rs r ds # concat (map nodes cs)"

text \<open>
  The chains of nodes from the root of a tree down to each leaf, in the order in which
  \<open>gather\<close> visits the leaves.
\<close>

fun chains :: "'a deinflection \<Rightarrow> 'a deinflection list list" where
  "chains (Deinflection cs t rs r ds) =
     (if cs = [] then [[Deinflection cs t rs r ds]]
      else concat (map (\<lambda>child. map ((#) (Deinflection cs t rs r ds)) (chains child)) cs))"

text \<open>
  A definition is admissible at a node when one of the node's rules is among its tags.
\<close>

definition admissible :: "'a deinflection \<Rightarrow> bool" where
  "admissible m \<longleftrightarrow>
     (\<forall>d \<in> set (definitions m). \<exists>rule \<in> set (rules m). rule \<in> set (drules d))"

text \<open>
  The terms \<open>deinflect\<close> passes to the definer, down to the depth the fuel allows: the
  node's own term, then those of the children it explores. They do not depend on what
  the definer answers.
\<close>

fun lookups :: "nat \<Rightarrow> reason_table \<Rightarrow> bool \<Rightarrow> 'a deinflection \<Rightarrow> jsstring list" where
  "lookups 0 table entry this = []"
| "lookups (Suc fuel) table entry this =
     node_term this # concat (map (lookups fuel table False) (expand table entry this))"

text \<open>
  A tree without the order of its children, and the paths of such a tree, as \<open>gather\<close>
  computes them, without their order.
\<close>

datatype 'a utree =
  UNode (u_children: "'a utree multiset") (u_term: jsstring) (u_rules: "jsstring list")
    (u_reason: jsstring) (u_definitions: "'a defn list")

fun unordered :: "'a deinflection \<Rightarrow> 'a utree" where
  "unordered (Deinflection cs t rs r ds) = UNode (mset (map unordered cs)) t rs r ds"

primrec paths_of :: "'a utree \<Rightarrow> 'a path multiset" where
  "paths_of (UNode cs t rs r ds) =
     (if cs = {#}
      then {#\<lparr>root = t, path_rules = rs, path_definitions = ds, reasons = [], source = None\<rparr>#}
      else \<Sum>\<^sub># (image_mset
             (image_mset (\<lambda>p. p\<lparr>path_definitions := path_definitions p @ ds,
                        reasons := (if length r > 0 then reasons p @ [r] else reasons p),
                        source := Some t\<rparr>))
             (image_mset paths_of cs)))"

text \<open>The outcome of a search, the tree without the order of its children.\<close>

definition shape_timed :: "error + (nat \<times> 'a deinflection \<times> bool) \<Rightarrow> error + ('a utree \<times> bool)" where
  "shape_timed = map_sum id (\<lambda>(fulfilled, tree, valid). (unordered tree, valid))"

definition shape :: "error + ('a deinflection \<times> bool) \<Rightarrow> error + ('a utree \<times> bool)" where
  "shape = map_sum id (\<lambda>(tree, valid). (unordered tree, valid))"

subsection \<open>Concrete inputs\<close>

text \<open>
  Strings by their code units. \<open>tabeta\<close> is U+98DF U+3079 U+305F, \<open>taberu\<close> is
  U+98DF U+3079 U+308B, \<open>tabenai\<close> is U+98DF U+3079 U+306A U+3044 and \<open>tabenakatta\<close>
  is U+98DF U+3079 U+306A U+304B U+3063 U+305F.
\<close>

definition tabeta :: jsstring where "tabeta = [0x98DF, 0x3079, 0x305F]"
definition taberu :: jsstring where "taberu = [0x98DF, 0x3079, 0x308B]"
definition tabenai :: jsstring where "tabenai = [0x98DF, 0x3079, 0x306A, 0x3044]"
definition tabenakatta :: jsstring where
  "tabenakatta = [0x98DF, 0x3079, 0x306A, 0x304B, 0x3063, 0x305F]"
definition kana_ta :: jsstring where "kana_ta = [0x305F]"
definition kana_ru :: jsstring where "kana_ru = [0x308B]"
definition kana_i :: jsstring where "kana_i = [0x3044]"
definition kana_nai :: jsstring where "kana_nai = [0x306A, 0x3044]"
definition kana_katta :: jsstring where "kana_katta = [0x304B, 0x3063, 0x305F]"

text \<open>The reason names \<^verbatim>\<open>past\<close> and \<^verbatim>\<open>negative\<close>, the rules \<^verbatim>\<open>v1\<close>, \<^verbatim>\<open>v5\<close> and \<^verbatim>\<open>adj-i\<close>.\<close>

definition reason_past :: jsstring where "reason_past = [0x70, 0x61, 0x73, 0x74]"
definition reason_negative :: jsstring where
  "reason_negative = [0x6E, 0x65, 0x67, 0x61, 0x74, 0x69, 0x76, 0x65]"
definition rule_v1 :: jsstring where "rule_v1 = [0x76, 0x31]"
definition rule_v5 :: jsstring where "rule_v5 = [0x76, 0x35]"
definition rule_adj_i :: jsstring where "rule_adj_i = [0x61, 0x64, 0x6A, 0x2D, 0x69]"

text \<open>The table of the spec's scenario: one reason, one variant.\<close>

definition past_table :: reason_table where
  "past_table =
     [(reason_past,
       [\<lparr>kanaIn = kana_ta, kanaOut = kana_ru, rulesIn = [rule_v1], rulesOut = [rule_v1]\<rparr>])]"

text \<open>Its definer: one definition tagged \<^verbatim>\<open>v1\<close> for \<open>taberu\<close>, none for any other term.\<close>

definition taberu_definer :: "unit definer" where
  "taberu_definer t = (if t = taberu then Inr [Defn [rule_v1] ()] else Inr [])"

text \<open>A definer that finds nothing, and one whose promise rejects for \<open>taberu\<close>.\<close>

definition empty_definer :: "unit definer" where
  "empty_definer t = Inr []"

definition failing_definer :: "unit definer" where
  "failing_definer t = (if t = taberu then Inl DefinerRejected else Inr [Defn [] ()])"

text \<open>A definer whose first definition carries two tags and whose second carries one.\<close>

definition two_tag_definer :: "unit definer" where
  "two_tag_definer t = Inr [Defn [rule_v5, rule_v1] (), Defn [rule_v1] ()]"

text \<open>
  A table whose two variants each shorten the term, applied one after the other to
  \<open>tabenakatta\<close>: \<^verbatim>\<open>past\<close> gives \<open>tabenai\<close>, then \<^verbatim>\<open>negative\<close> gives \<open>taberu\<close>.
\<close>

definition two_step_table :: reason_table where
  "two_step_table =
     [(reason_past,
       [\<lparr>kanaIn = kana_katta, kanaOut = kana_i,
         rulesIn = [rule_adj_i], rulesOut = [rule_adj_i]\<rparr>]),
      (reason_negative,
       [\<lparr>kanaIn = kana_nai, kanaOut = kana_ru,
         rulesIn = [rule_adj_i], rulesOut = [rule_v1]\<rparr>])]"

text \<open>The tree the search builds for \<open>tabenakatta\<close> with that table and \<open>taberu_definer\<close>.\<close>

definition two_step_leaf :: "unit deinflection" where
  "two_step_leaf = new_Deinflection taberu [rule_v1] []"

definition two_step_B :: "unit deinflection" where
  "two_step_B =
     Deinflection [two_step_leaf] taberu [rule_v1] reason_negative [Defn [rule_v1] ()]"

definition two_step_A :: "unit deinflection" where
  "two_step_A =
     Deinflection [new_Deinflection tabenai [rule_adj_i] [], two_step_B]
       tabenai [rule_adj_i] reason_past []"

definition two_step_tree :: "unit deinflection" where
  "two_step_tree =
     Deinflection [new_Deinflection tabenakatta [] [], two_step_A] tabenakatta [] [] []"

text \<open>
  A table with one variant that replaces the suffix U+308B by itself, as long as its
  \<^verbatim>\<open>kanaIn\<close>, and accepts the rule it hands on.
\<close>

definition same_length_table :: reason_table where
  "same_length_table =
     [(reason_past,
       [\<lparr>kanaIn = kana_ru, kanaOut = kana_ru, rulesIn = [rule_v1], rulesOut = [rule_v1]\<rparr>])]"

text \<open>
  The table \<open>two_step_table\<close> with a third reason, \<^verbatim>\<open>plain\<close>, whose variant applies to
  \<open>tabenakatta\<close> and leads to a term nothing applies to.
\<close>

definition reason_plain :: jsstring where "reason_plain = [0x70, 0x6C, 0x61, 0x69, 0x6E]"

definition three_reason_table :: reason_table where
  "three_reason_table = two_step_table @
     [(reason_plain,
       [\<lparr>kanaIn = kana_ta, kanaOut = kana_ru, rulesIn = [rule_v1], rulesOut = [rule_v1]\<rparr>])]"

text \<open>
  A definer whose promises are settled when it returns them, and one whose promise for
  one term settles at tick \<open>10\<close>.
\<close>

definition prompt :: "'a definer \<Rightarrow> 'a timed_definer" where
  "prompt d u = (0, d u)"

definition late_for :: "jsstring \<Rightarrow> 'a definer \<Rightarrow> 'a timed_definer" where
  "late_for t d u = (if u = t then 10 else 0, d u)"

text \<open>
  The table \<open>two_step_table\<close> with the empty string as the key of its first reason, and
  the tree the search builds with it for \<open>tabenakatta\<close>.
\<close>

definition unnamed_step_table :: reason_table where
  "unnamed_step_table =
     [([],
       [\<lparr>kanaIn = kana_katta, kanaOut = kana_i,
         rulesIn = [rule_adj_i], rulesOut = [rule_adj_i]\<rparr>]),
      (reason_negative,
       [\<lparr>kanaIn = kana_nai, kanaOut = kana_ru,
         rulesIn = [rule_adj_i], rulesOut = [rule_v1]\<rparr>])]"

definition unnamed_A :: "unit deinflection" where
  "unnamed_A =
     Deinflection [new_Deinflection tabenai [rule_adj_i] [], two_step_B]
       tabenai [rule_adj_i] [] []"

definition unnamed_tree :: "unit deinflection" where
  "unnamed_tree =
     Deinflection [new_Deinflection tabenakatta [] [], unnamed_A] tabenakatta [] [] []"

section \<open>Auxiliary facts\<close>

subsection \<open>Lists of results\<close>

lemma those_eq_Some: "those xs = Some ys \<longleftrightarrow> xs = map Some ys"
  by (induction xs arbitrary: ys) (auto split: option.splits)

lemma those_map_Some:
  "(\<forall>x \<in> set xs. \<exists>y. f x = Some y) \<Longrightarrow> \<exists>ys. those (map f xs) = Some ys"
  by (induction xs) auto

lemma count_list_filter:
  "count_list (filter P xs) x = (if P x then count_list xs x else 0)"
  by (induction xs) auto

lemma retained_Inr:
  "retained results = Inr cs \<Longrightarrow> k \<in> set cs \<Longrightarrow> Inr (k, True) \<in> set results"
proof (induction results arbitrary: cs rule: retained.induct)
  case 1
  then show ?case by simp
next
  case (2 e rest)
  then show ?case by simp
next
  case (3 child valid rest)
  then show ?case by (auto split: sum.splits if_splits)
qed

lemma retained_Inl:
  "Inl e \<in> set results \<Longrightarrow> \<exists>e'. retained results = Inl e'"
  by (induction results rule: retained.induct) (auto split: sum.splits)

lemma settle_Inl_retained:
  "Inl e \<in> set results \<Longrightarrow> \<exists>e'. settle validated results = Inl e'"
  using retained_Inl[of e results]
  by (auto simp: settle_def split: sum.splits)

subsection \<open>The two loops of self-validation\<close>

lemma push_matching_eq:
  "push_matching rule ds acc = acc @ filter (\<lambda>d. rule \<in> set (drules d)) ds"
  by (induction ds arbitrary: acc) auto

lemma push_accepted_eq:
  "push_accepted rs ds acc =
     acc @ concat (map (\<lambda>rule. filter (\<lambda>d. rule \<in> set (drules d)) ds) rs)"
  by (induction rs arbitrary: acc) (auto simp: push_matching_eq)

lemma count_list_grouped:
  "count_list (concat (map (\<lambda>rule. filter (\<lambda>d. rule \<in> set (drules d)) ds) rs)) d =
     count_list ds d * length (filter (\<lambda>rule. rule \<in> set (drules d)) rs)"
  by (induction rs) (auto simp: count_list_filter)

subsection \<open>The children a node explores\<close>

lemma expand_variants_props:
  "c \<in> set (expand_variants entry this r vs) \<Longrightarrow>
     children c = [] \<and> definitions c = [] \<and> reason c = r \<and> node_term c \<noteq> [] \<and>
     (\<exists>v \<in> set vs. allowed entry (rules this) v \<and> endsWith (node_term this) (kanaIn v) \<and>
        node_term c = slice_neg (node_term this) (length (kanaIn v)) @ kanaOut v \<and>
        rules c = rulesOut v)"
  by (induction vs) (auto simp: new_Deinflection_def Let_def split: if_splits)

lemma expand_props:
  "c \<in> set (expand table entry this) \<Longrightarrow>
     children c = [] \<and> definitions c = [] \<and> node_term c \<noteq> [] \<and>
     (\<exists>(r, vs) \<in> set table. \<exists>v \<in> set vs. reason c = r \<and>
        allowed entry (rules this) v \<and> endsWith (node_term this) (kanaIn v) \<and>
        node_term c = slice_neg (node_term this) (length (kanaIn v)) @ kanaOut v \<and>
        rules c = rulesOut v)"
proof (induction table)
  case Nil
  then show ?case by simp
next
  case (Cons a table)
  obtain r vs where a: "a = (r, vs)" by (cases a)
  from Cons.prems a consider "c \<in> set (expand_variants entry this r vs)"
    | "c \<in> set (expand table entry this)"
    by auto
  then show ?case
  proof cases
    case 1
    from expand_variants_props[OF 1] a show ?thesis by auto
  next
    case 2
    from Cons.IH[OF 2] show ?thesis by auto
  qed
qed

lemma expand_shrinks:
  assumes "\<forall>(r, vs) \<in> set table. \<forall>v \<in> set vs. length (kanaOut v) < length (kanaIn v)"
    and "c \<in> set (expand table entry this)"
  shows "length (node_term c) < length (node_term this)"
proof -
  from expand_props[OF assms(2)] obtain r vs v where
    v: "(r, vs) \<in> set table" "v \<in> set vs" "endsWith (node_term this) (kanaIn v)"
       "node_term c = slice_neg (node_term this) (length (kanaIn v)) @ kanaOut v"
    by blast
  from assms(1) v(1,2) have "length (kanaOut v) < length (kanaIn v)" by blast
  with v(3,4) show ?thesis by (auto simp: endsWith_def slice_neg_def)
qed

subsection \<open>One level of the search\<close>

text \<open>
  What a call that fulfils has built: the node's own fields, the stop-child, and below
  it one subtree for each explored child that fulfilled with \<open>True\<close>.
\<close>

lemma deinflect_Suc_Inr:
  assumes "deinflect (Suc fuel) definer table entry this = Some (Inr (tree, v))"
  shows "\<exists>ds kids. definer (node_term this) = Inr ds \<and> v \<and>
     tree = Deinflection
              (children this @ new_Deinflection (node_term this) (rules this) [] # kids)
              (node_term this) (rules this) (reason this)
              (if entry then ds else push_accepted (rules this) ds (definitions this)) \<and>
     (\<forall>k \<in> set kids. \<exists>c \<in> set (expand table entry this).
        deinflect fuel definer table False c = Some (Inr (k, True)))"
proof -
  from assms obtain results where
    th: "those (map (deinflect fuel definer table False) (expand table entry this)) = Some results"
    and st: "settle (validate definer entry this) results = Inr (tree, v)"
    by (auto split: option.splits)
  from st obtain ds where ds: "definer (node_term this) = Inr ds"
    by (cases "definer (node_term this)") (auto simp: settle_def validate_def)
  from st ds obtain kids where kids: "retained results = Inr kids"
    by (cases "retained results") (auto simp: settle_def validate_def Let_def)
  from st ds kids have tree: "tree = Deinflection
              (children this @ new_Deinflection (node_term this) (rules this) [] # kids)
              (node_term this) (rules this) (reason this)
              (if entry then ds else push_accepted (rules this) ds (definitions this))"
    and v: v
    by (auto simp: settle_def validate_def Let_def)
  have "\<exists>c \<in> set (expand table entry this).
        deinflect fuel definer table False c = Some (Inr (k, True))" if "k \<in> set kids" for k
  proof -
    from retained_Inr[OF kids that] have "Some (Inr (k, True)) \<in> set (map Some results)"
      by simp
    with th show ?thesis
      unfolding those_eq_Some by (metis (no_types, lifting) imageE list.set_map)
  qed
  with ds tree v show ?thesis by blast
qed

lemma deinflect_root_fields:
  assumes "deinflect fuel definer table entry this = Some (Inr (tree, v))"
  shows "v \<and> children tree \<noteq> [] \<and> node_term tree = node_term this \<and>
     rules tree = rules this \<and> reason tree = reason this"
proof (cases fuel)
  case 0
  with assms show ?thesis by simp
next
  case (Suc n)
  with assms have "deinflect (Suc n) definer table entry this = Some (Inr (tree, v))"
    by simp
  from deinflect_Suc_Inr[OF this] show ?thesis by auto
qed

lemma nodes_unfold: "set (nodes m) = insert m (\<Union>c \<in> set (children m). set (nodes c))"
  by (cases m) auto

subsection \<open>Invariants of the tree\<close>

lemma deinflect_terms_nonempty:
  "deinflect fuel definer table entry this = Some (Inr (tree, v)) \<Longrightarrow>
   node_term this \<noteq> [] \<Longrightarrow>
   \<forall>c \<in> set (children this). \<forall>m \<in> set (nodes c). node_term m \<noteq> [] \<Longrightarrow>
   \<forall>m \<in> set (nodes tree). node_term m \<noteq> []"
proof (induction fuel arbitrary: entry this tree v)
  case 0
  then show ?case by simp
next
  case (Suc fuel)
  from deinflect_Suc_Inr[OF Suc.prems(1)] obtain ds kids where
    tree: "tree = Deinflection
              (children this @ new_Deinflection (node_term this) (rules this) [] # kids)
              (node_term this) (rules this) (reason this)
              (if entry then ds else push_accepted (rules this) ds (definitions this))"
    and kids: "\<forall>k \<in> set kids. \<exists>c \<in> set (expand table entry this).
        deinflect fuel definer table False c = Some (Inr (k, True))"
    by blast
  have "\<forall>m \<in> set (nodes k). node_term m \<noteq> []" if "k \<in> set kids" for k
  proof -
    from kids that obtain c where c: "c \<in> set (expand table entry this)"
      and d: "deinflect fuel definer table False c = Some (Inr (k, True))" by blast
    from expand_props[OF c] have "node_term c \<noteq> []" "children c = []" by auto
    with Suc.IH[OF d] show ?thesis by simp
  qed
  with Suc.prems(2,3) show ?case
    by (auto simp: tree new_Deinflection_def)
qed

lemma deinflect_admissible:
  "deinflect fuel definer table entry this = Some (Inr (tree, v)) \<Longrightarrow>
   \<forall>c \<in> set (children this). \<forall>m \<in> set (nodes c). admissible m \<Longrightarrow>
   (\<forall>c \<in> set (children tree). \<forall>m \<in> set (nodes c). admissible m) \<and>
   (\<not> entry \<longrightarrow> admissible this \<longrightarrow> admissible tree)"
proof (induction fuel arbitrary: entry this tree v)
  case 0
  then show ?case by simp
next
  case (Suc fuel)
  from deinflect_Suc_Inr[OF Suc.prems(1)] obtain ds kids where
    tree: "tree = Deinflection
              (children this @ new_Deinflection (node_term this) (rules this) [] # kids)
              (node_term this) (rules this) (reason this)
              (if entry then ds else push_accepted (rules this) ds (definitions this))"
    and kids: "\<forall>k \<in> set kids. \<exists>c \<in> set (expand table entry this).
        deinflect fuel definer table False c = Some (Inr (k, True))"
    by blast
  have "\<forall>m \<in> set (nodes k). admissible m" if "k \<in> set kids" for k
  proof -
    from kids that obtain c where c: "c \<in> set (expand table entry this)"
      and d: "deinflect fuel definer table False c = Some (Inr (k, True))" by blast
    from expand_props[OF c] have fresh: "definitions c = []" "children c = []" by auto
    then have "admissible c" by (simp add: admissible_def)
    with Suc.IH[OF d] fresh
    have "(\<forall>c \<in> set (children k). \<forall>m \<in> set (nodes c). admissible m) \<and> admissible k"
      by simp
    then show ?thesis by (auto simp: nodes_unfold[of k])
  qed
  moreover have "admissible (new_Deinflection (node_term this) (rules this) [])"
    by (simp add: admissible_def new_Deinflection_def)
  moreover have
    "set (nodes (new_Deinflection (node_term this) (rules this) [] :: 'a deinflection)) =
     {new_Deinflection (node_term this) (rules this) []}"
    by (simp add: new_Deinflection_def)
  ultimately have 1: "\<forall>c \<in> set (children tree). \<forall>m \<in> set (nodes c). admissible m"
    using Suc.prems(2) by (auto simp: tree)
  have 2: "admissible tree" if "\<not> entry" "admissible this"
    using that by (auto simp: tree admissible_def push_accepted_eq)
  from 1 2 show ?case by blast
qed

lemma deinflect_leaves:
  "deinflect fuel definer table entry this = Some (Inr (tree, v)) \<Longrightarrow>
   children this = [] \<Longrightarrow>
   \<forall>m \<in> set (nodes tree). children m = [] \<longrightarrow> reason m = []"
proof (induction fuel arbitrary: entry this tree v)
  case 0
  then show ?case by simp
next
  case (Suc fuel)
  from deinflect_Suc_Inr[OF Suc.prems(1)] obtain ds kids where
    tree: "tree = Deinflection
              (children this @ new_Deinflection (node_term this) (rules this) [] # kids)
              (node_term this) (rules this) (reason this)
              (if entry then ds else push_accepted (rules this) ds (definitions this))"
    and kids: "\<forall>k \<in> set kids. \<exists>c \<in> set (expand table entry this).
        deinflect fuel definer table False c = Some (Inr (k, True))"
    by blast
  have "\<forall>m \<in> set (nodes k). children m = [] \<longrightarrow> reason m = []" if "k \<in> set kids" for k
  proof -
    from kids that obtain c where c: "c \<in> set (expand table entry this)"
      and d: "deinflect fuel definer table False c = Some (Inr (k, True))" by blast
    from expand_props[OF c] have "children c = []" by auto
    with Suc.IH[OF d] show ?thesis by simp
  qed
  with Suc.prems(2) show ?case
    by (auto simp: tree new_Deinflection_def)
qed

subsection \<open>Flattening along the chains\<close>

lemma gather_source:
  "children n \<noteq> [] \<Longrightarrow> p \<in> set (gather n) \<Longrightarrow> source p = Some (node_term n)"
  by (cases n) auto

lemma chains_nonempty: "ch \<in> set (chains n) \<Longrightarrow> ch \<noteq> []"
  by (cases n) (auto split: if_splits)

lemma chains_last_leaf:
  "ch \<in> set (chains n) \<Longrightarrow> last ch \<in> set (nodes n) \<and> children (last ch) = [] \<and> hd ch = n"
proof (induction n arbitrary: ch rule: chains.induct)
  case (1 cs t rs r ds)
  show ?case
  proof (cases "cs = []")
    case True
    with 1 show ?thesis by simp
  next
    case False
    with 1(2) obtain child ch' where c: "child \<in> set cs" "ch' \<in> set (chains child)"
      "ch = Deinflection cs t rs r ds # ch'" by auto
    from 1(1)[OF False c(1,2)] chains_nonempty[OF c(2)] c show ?thesis by auto
  qed
qed

text \<open>
  The path of a chain: its root is the leaf's term, and its reasons are the non-empty
  reasons of the nodes above the leaf, the deepest first.
\<close>

lemma gather_reasons_chains:
  "map (\<lambda>p. (root p, reasons p)) (gather n) =
   map (\<lambda>ch. (node_term (last ch),
               rev (filter (\<lambda>r. 0 < length r) (map reason (butlast ch)))))
     (chains n)"
proof (induction n rule: gather.induct)
  case (1 cs t rs r ds)
  let ?upd = "\<lambda>p :: 'a path. p\<lparr>path_definitions := path_definitions p @ ds,
                        reasons := (if length r > 0 then reasons p @ [r] else reasons p),
                        source := Some t\<rparr>"
  let ?of_chain = "\<lambda>ch :: 'a deinflection list. (node_term (last ch),
               rev (filter (\<lambda>r. 0 < length r) (map reason (butlast ch))))"
  let ?push = "\<lambda>(a :: jsstring, b). (a, if length r > 0 then b @ [r] else b)"
  show ?case
  proof (cases "cs = []")
    case True
    then show ?thesis by simp
  next
    case False
    have "map (\<lambda>p. (root p, reasons p)) (map ?upd (gather child)) =
          map ?of_chain (map ((#) (Deinflection cs t rs r ds)) (chains child))"
      if "child \<in> set cs" for child
    proof -
      have "map (\<lambda>p. (root p, reasons p)) (map ?upd (gather child)) =
            map ?push (map (\<lambda>p. (root p, reasons p)) (gather child))"
        by simp
      also have "\<dots> = map ?push (map ?of_chain (chains child))"
        using 1[OF _ that] False by simp
      also have "\<dots> = map ?of_chain (map ((#) (Deinflection cs t rs r ds)) (chains child))"
        by (auto simp: chains_nonempty)
      finally show ?thesis .
    qed
    then show ?thesis using False
      by (simp add: map_concat cong: map_cong)
  qed
qed

lemma gather_of_chain:
  assumes "(ch, p) \<in> set (zip (chains n) (gather n))"
  shows "root p = node_term (last ch) \<and>
     reasons p = rev (filter (\<lambda>r. 0 < length r) (map reason (butlast ch)))"
proof -
  from assms obtain i where i: "i < length (chains n)" "i < length (gather n)"
    "chains n ! i = ch" "gather n ! i = p"
    by (auto simp: in_set_zip)
  from i(1,2) arg_cong[OF gather_reasons_chains[of n], of "\<lambda>xs. xs ! i"]
  have "(root (gather n ! i), reasons (gather n ! i)) =
      (node_term (last (chains n ! i)),
       rev (filter (\<lambda>r. 0 < length r) (map reason (butlast (chains n ! i)))))"
    by simp
  with i(3,4) show ?thesis by simp
qed

subsection \<open>Fuel\<close>

text \<open>A call that returns with some fuel returns the same with more.\<close>

lemma deinflect_fuel_mono:
  "deinflect fuel definer table entry this = Some res \<Longrightarrow>
   deinflect (fuel + k) definer table entry this = Some res"
proof (induction fuel arbitrary: entry this res)
  case 0
  then show ?case by simp
next
  case (Suc fuel)
  from Suc.prems obtain results where
    th: "those (map (deinflect fuel definer table False) (expand table entry this)) = Some results"
    and res: "res = settle (validate definer entry this) results"
    by (auto split: option.splits)
  from th have "map (deinflect fuel definer table False) (expand table entry this) =
      map Some results"
    by (simp add: those_eq_Some)
  then have "\<forall>c \<in> set (expand table entry this).
      \<exists>r. deinflect fuel definer table False c = Some r"
    by (metis (no_types, lifting) imageE image_eqI list.set_map)
  with Suc.IH have "\<forall>c \<in> set (expand table entry this).
      deinflect (fuel + k) definer table False c = deinflect fuel definer table False c"
    by fastforce
  then have eq: "map (deinflect (fuel + k) definer table False) (expand table entry this) =
     map (deinflect fuel definer table False) (expand table entry this)"
    by simp
  have "deinflect (Suc fuel + k) definer table entry this =
     (case those (map (deinflect (fuel + k) definer table False) (expand table entry this)) of
        None \<Rightarrow> None
      | Some results \<Rightarrow> Some (settle (validate definer entry this) results))"
    by simp
  also have "\<dots> = Some res"
    unfolding eq th res by simp
  finally show ?case .
qed

text \<open>When every variant shortens the term, the depth is at most the term's length.\<close>

lemma deinflect_terminates:
  assumes "\<forall>(r, vs) \<in> set table. \<forall>v \<in> set vs. length (kanaOut v) < length (kanaIn v)"
  shows "length (node_term this) < fuel \<Longrightarrow>
     \<exists>res. deinflect fuel definer table entry this = Some res"
proof (induction fuel arbitrary: entry this)
  case 0
  then show ?case by simp
next
  case (Suc fuel)
  have "\<exists>y. deinflect fuel definer table False c = Some y"
    if "c \<in> set (expand table entry this)" for c
    using expand_shrinks[OF assms that] Suc.prems by (intro Suc.IH) simp
  then have
    "\<exists>ys. those (map (deinflect fuel definer table False) (expand table entry this)) = Some ys"
    by (intro those_map_Some) blast
  then show ?case by auto
qed

text \<open>The table \<open>same_length_table\<close> hands \<open>taberu\<close> on to a child unchanged.\<close>

lemma same_length_expand:
  "node_term this = taberu \<Longrightarrow> entry \<or> rules this = [rule_v1] \<Longrightarrow>
   expand same_length_table entry this = [new_Deinflection taberu [rule_v1] reason_past]"
  by (auto simp: same_length_table_def allowed_def endsWith_def slice_neg_def
      taberu_def kana_ru_def)

lemma same_length_diverges:
  "node_term this = taberu \<Longrightarrow> entry \<or> rules this = [rule_v1] \<Longrightarrow>
   deinflect fuel definer same_length_table entry this = None"
proof (induction fuel arbitrary: entry this)
  case 0
  then show ?case by simp
next
  case (Suc fuel)
  have "deinflect fuel definer same_length_table False
          (new_Deinflection taberu [rule_v1] reason_past) = None"
    by (rule Suc.IH) (simp_all add: new_Deinflection_def)
  with same_length_expand[OF Suc.prems] show ?case by simp
qed

subsection \<open>Rejections\<close>

lemma deinflect_rejects:
  "deinflect fuel definer table entry this = Some res \<Longrightarrow>
   t \<in> set (lookups fuel table entry this) \<Longrightarrow> definer t = Inl e \<Longrightarrow>
   \<exists>e'. res = Inl e'"
proof (induction fuel arbitrary: entry this res)
  case 0
  then show ?case by simp
next
  case (Suc fuel)
  from Suc.prems(1) obtain results where
    th: "those (map (deinflect fuel definer table False) (expand table entry this)) = Some results"
    and res: "res = settle (validate definer entry this) results"
    by (auto split: option.splits)
  from Suc.prems(2) consider "t = node_term this"
    | c where "c \<in> set (expand table entry this)" "t \<in> set (lookups fuel table False c)"
    by auto
  then show ?case
  proof cases
    case 1
    with Suc.prems(3) have "validate definer entry this = Inl e" by (simp add: validate_def)
    with res show ?thesis by (simp add: settle_def)
  next
    case 2
    from th have "map (deinflect fuel definer table False) (expand table entry this) =
        map Some results"
      by (simp add: those_eq_Some)
    with 2(1) obtain rc where
      rc: "deinflect fuel definer table False c = Some rc" "rc \<in> set results"
      by (metis (no_types, lifting) imageE image_eqI list.set_map)
    from Suc.IH[OF rc(1) 2(2) Suc.prems(3)] obtain e' where "rc = Inl e'" by blast
    with rc(2) settle_Inl_retained res show ?thesis by metis
  qed
qed

subsection \<open>The search with the clock\<close>

lemma those_map_option: "those (map (map_option f) xs) = map_option (map f) (those xs)"
  by (induction xs) (auto simp: option.map_comp comp_def split: option.splits)

lemma gather_unordered: "mset (gather a) = paths_of (unordered a)"
proof (induction a rule: gather.induct)
  case (1 cs t rs r ds)
  let ?upd = "\<lambda>p :: 'a path. p\<lparr>path_definitions := path_definitions p @ ds,
                        reasons := (if length r > 0 then reasons p @ [r] else reasons p),
                        source := Some t\<rparr>"
  show ?case
  proof (cases "cs = []")
    case True
    then show ?thesis by simp
  next
    case False
    have "mset (concat (map (\<lambda>child. map ?upd (gather child)) cs)) =
          sum_list (map (\<lambda>child. image_mset ?upd (mset (gather child))) cs)"
      by (simp add: mset_concat comp_def)
    also have "\<dots> = sum_list (map (\<lambda>child. image_mset ?upd (paths_of (unordered child))) cs)"
      using 1 False by (intro arg_cong[where f = sum_list] map_cong) simp_all
    also have "\<dots> = \<Sum>\<^sub># (image_mset (image_mset ?upd)
                       (image_mset paths_of (mset (map unordered cs))))"
      by (simp add: multiset.map_comp comp_def flip: sum_mset_sum_list)
    finally show ?thesis using False by simp
  qed
qed

lemma joined_retained:
  "map shape_timed rt = map shape ru \<Longrightarrow>
   (case joined rt of
      Inl e \<Rightarrow> retained ru = Inl e
    | Inr xs \<Rightarrow> \<exists>kids. retained ru = Inr kids \<and>
        map unordered kids =
          map (\<lambda>(at, child, valid). unordered child) (filter (\<lambda>(at, child, valid). valid) xs))"
proof (induction rt arbitrary: ru)
  case Nil
  then show ?case by simp
next
  case (Cons x rt)
  from Cons.prems obtain y ru' where ru: "ru = y # ru'" and xy: "shape_timed x = shape y"
    and rest: "map shape_timed rt = map shape ru'"
    by (cases ru) auto
  show ?case
  proof (cases x)
    case (Inl e)
    with xy have "y = Inl e" by (cases y) (auto simp: shape_timed_def shape_def)
    with Inl ru show ?thesis by simp
  next
    case (Inr a)
    obtain tick child valid where a: "a = (tick, child, valid)" by (cases a)
    from xy Inr a obtain child' where y: "y = Inr (child', valid)"
      and u: "unordered child' = unordered child"
      by (cases y) (auto simp: shape_timed_def shape_def)
    from Cons.IH[OF rest] Inr a y u ru show ?thesis
      by (auto split: sum.splits)
  qed
qed

lemma mset_map_sort_key:
  "mset (map f (map g (sort_key k xs))) = mset (map f (map g xs))"
proof -
  have "mset (map (f \<circ> g) (sort_key k xs)) = mset (map (f \<circ> g) xs)"
    by (simp only: mset_map mset_sort)
  then show ?thesis by (simp only: map_map)
qed

lemma settle_timed_shape:
  assumes "map shape_timed rt = map shape ru"
  shows "shape_timed (settle_timed tick validated rt) = shape (settle validated ru)"
proof (cases validated)
  case (Inl e)
  then show ?thesis by (simp add: settle_timed_def settle_def shape_timed_def shape_def)
next
  case (Inr a)
  obtain this valid where a: "a = (this, valid)" by (cases a)
  show ?thesis
  proof (cases "joined rt")
    case (Inl e)
    with joined_retained[OF assms] have "retained ru = Inl e" by simp
    with Inl Inr a show ?thesis
      by (simp add: settle_timed_def settle_def shape_timed_def shape_def)
  next
    case (Inr xs)
    with joined_retained[OF assms] obtain kids where kids: "retained ru = Inr kids"
      and u: "map unordered kids =
          map (\<lambda>(at, child, valid). unordered child) (filter (\<lambda>(at, child, valid). valid) xs)"
      by auto
    let ?calls = "map (\<lambda>(fulfilled, child, valid). (Suc fulfilled, child, valid)) xs"
    let ?stop = "new_Deinflection (node_term this) (rules this) [] :: 'a deinflection"
    let ?pushes = "(tick + 2, ?stop) #
         map (\<lambda>(at, child, valid). (at, child)) (filter (\<lambda>(at, child, valid). valid) ?calls)"
    have "mset (map unordered (map snd (sort_key fst ?pushes))) =
          mset (map unordered (map snd ?pushes))"
      by (rule mset_map_sort_key)
    also have "map unordered (map snd ?pushes) = unordered ?stop # map unordered kids"
      unfolding u by (simp add: filter_map comp_def case_prod_unfold)
    finally have "mset (map unordered (children this @ map snd (sort_key fst ?pushes))) =
        mset (map unordered (children this @ ?stop # kids))"
      by simp
    moreover have "length (sort_key fst ?pushes) = length ?pushes"
      by (rule length_sort)
    then have "sort_key fst ?pushes \<noteq> []"
      by (metis length_0_conv list.distinct(1))
    ultimately show ?thesis using \<open>validated = Inr a\<close> a Inr kids
      by (simp add: settle_timed_def settle_def shape_timed_def shape_def Let_def
          del: mset_map sort_key_simps)
  qed
qed

text \<open>
  With the clock or without it, the search returns the same tree up to the order of the
  children, and the facade the same paths up to their order.
\<close>

lemma deinflect_timed_shape:
  "map_option shape_timed (deinflect_timed fuel d table entry this) =
   map_option shape (deinflect fuel (untimed d) table entry this)"
proof (induction fuel arbitrary: entry this)
  case 0
  then show ?case by simp
next
  case (Suc fuel)
  let ?rt = "map (deinflect_timed fuel d table False) (expand table entry this)"
  let ?ru = "map (deinflect fuel (untimed d) table False) (expand table entry this)"
  from Suc.IH have "map (map_option shape_timed) ?rt = map (map_option shape) ?ru"
    by simp
  then have eq: "map_option (map shape_timed) (those ?rt) = map_option (map shape) (those ?ru)"
    by (simp only: flip: those_map_option)
  show ?case
  proof (cases "those ?rt")
    case None
    with eq have "those ?ru = None" by simp
    with None show ?thesis by simp
  next
    case (Some rt)
    with eq obtain ru where ru: "those ?ru = Some ru" and m: "map shape_timed rt = map shape ru"
      by (cases "those ?ru") auto
    from settle_timed_shape[OF m] Some ru show ?thesis by simp
  qed
qed

lemma facade_timed_paths:
  "map_option (map_sum id mset) (Deinflector_deinflect_timed fuel table t d) =
   map_option (map_sum id mset) (Deinflector_deinflect fuel table t (untimed d))"
proof -
  let ?A = "deinflect_timed fuel d table True (new_Deinflection t [] [])"
  let ?B = "deinflect fuel (untimed d) table True (new_Deinflection t [] [])"
  have eq: "map_option shape_timed ?A = map_option shape ?B"
    by (rule deinflect_timed_shape)
  show ?thesis
  proof (cases ?A)
    case None
    with eq have "?B = None" by simp
    with None show ?thesis
      by (simp add: Deinflector_deinflect_timed_def Deinflector_deinflect_def)
  next
    case (Some x)
    with eq obtain y where y: "?B = Some y" and xy: "shape_timed x = shape y"
      by (cases ?B) auto
    show ?thesis
    proof (cases x)
      case (Inl e)
      with xy have "y = Inl e" by (cases y) (auto simp: shape_timed_def shape_def)
      with Inl Some y show ?thesis
        by (simp add: Deinflector_deinflect_timed_def Deinflector_deinflect_def)
    next
      case (Inr a)
      obtain tick tree valid where a: "a = (tick, tree, valid)" by (cases a)
      from xy Inr a obtain tree' where y': "y = Inr (tree', valid)"
        and u: "unordered tree' = unordered tree"
        by (cases y) (auto simp: shape_timed_def shape_def)
      from u have "mset (gather tree') = mset (gather tree)"
        by (simp add: gather_unordered)
      with Inr a Some y y' show ?thesis
        by (simp add: Deinflector_deinflect_timed_def Deinflector_deinflect_def)
    qed
  qed
qed

subsection \<open>Evaluation at a numeral\<close>

lemma deinflect_numeral:
  "deinflect (numeral k) definer table entry this =
     (case those (map (deinflect (pred_numeral k) definer table False)
                   (expand table entry this)) of
        None \<Rightarrow> None
      | Some results \<Rightarrow> Some (settle (validate definer entry this) results))"
  by (simp add: numeral_eq_Suc)

lemma lookups_numeral:
  "lookups (numeral k) table entry this =
     node_term this #
     concat (map (lookups (pred_numeral k) table False) (expand table entry this))"
  by (simp add: numeral_eq_Suc)

lemmas scenario_defs = tabeta_def taberu_def tabenai_def tabenakatta_def kana_ta_def
  kana_ru_def kana_i_def kana_nai_def kana_katta_def reason_past_def reason_negative_def
  rule_v1_def rule_v5_def rule_adj_i_def

lemmas engine_defs = Deinflector_deinflect_def new_Deinflection_def settle_def validate_def
  allowed_def endsWith_def slice_neg_def deinflect_numeral lookups_numeral

lemma deinflect_timed_numeral:
  "deinflect_timed (numeral k) definer table entry this =
     (case those (map (deinflect_timed (pred_numeral k) definer table False)
                   (expand table entry this)) of
        None \<Rightarrow> None
      | Some results \<Rightarrow>
          Some (settle_timed (fst (definer (node_term this)))
                  (validate (untimed definer) entry this) results))"
  by (simp add: numeral_eq_Suc)

lemmas timed_defs = Deinflector_deinflect_timed_def settle_timed_def untimed_def prompt_def
  late_for_def deinflect_timed_numeral

section \<open>The claims\<close>

subsection \<open>Self-validation of a node that is not the entry point\<close>

text \<open>
  Claim C10. Self-validation of a node that is not the entry point runs over the node's
  rules in the outer loop and over the returned definitions in the inner loop. On a
  new node the stored definitions are therefore the definer's list filtered once per
  rule, the filtered lists one after the other: grouped by rule, not in the definer's
  order. A definition is stored as many times as it occurs in the definer's list,
  multiplied by the number of the node's rules among its tags; one that shares \<open>k\<close>
  rules with the node is stored \<open>k\<close> times.
\<close>

theorem validate_pushes_once_per_shared_rule:
  assumes "definer t = Inr ds"
  shows "\<exists>this'. validate definer False (new_Deinflection t rs r) =
            Inr (this', 0 < length (definitions this')) \<and>
          definitions this' =
            concat (map (\<lambda>rule. filter (\<lambda>d. rule \<in> set (drules d)) ds) rs) \<and>
          (\<forall>d. count_list (definitions this') d =
            count_list ds d * length (filter (\<lambda>rule. rule \<in> set (drules d)) rs))"
  using assms
  by (simp add: validate_def new_Deinflection_def push_accepted_eq count_list_grouped)

text \<open>
  With the rules \<^verbatim>\<open>v1\<close>, \<^verbatim>\<open>v5\<close> and a definer that returns a definition tagged with
  both, then one tagged \<^verbatim>\<open>v1\<close>: the first is stored twice, around the second.
\<close>

theorem validate_pushes_once_per_shared_rule_witness:
  "two_tag_definer taberu = Inr [Defn [rule_v5, rule_v1] (), Defn [rule_v1] ()] \<and>
   (\<exists>this'. validate two_tag_definer False
               (new_Deinflection taberu [rule_v1, rule_v5] reason_past) = Inr (this', True) \<and>
      definitions this' =
        [Defn [rule_v5, rule_v1] (), Defn [rule_v1] (), Defn [rule_v5, rule_v1] ()] \<and>
      count_list (definitions this') (Defn [rule_v5, rule_v1] ()) = 2)"
proof -
  have h: "two_tag_definer taberu = Inr [Defn [rule_v5, rule_v1] (), Defn [rule_v1] ()]"
    by (simp add: two_tag_definer_def)
  from validate_pushes_once_per_shared_rule[of two_tag_definer taberu
      "[Defn [rule_v5, rule_v1] (), Defn [rule_v1] ()]" "[rule_v1, rule_v5]" reason_past, OF h]
  obtain this' where
    v: "validate two_tag_definer False (new_Deinflection taberu [rule_v1, rule_v5] reason_past) =
        Inr (this', 0 < length (definitions this'))"
    and d: "definitions this' =
        concat (map (\<lambda>rule. filter (\<lambda>d. rule \<in> set (drules d))
          [Defn [rule_v5, rule_v1] (), Defn [rule_v1] ()]) [rule_v1, rule_v5])"
    by blast
  from d have d': "definitions this' =
        [Defn [rule_v5, rule_v1] (), Defn [rule_v1] (), Defn [rule_v5, rule_v1] ()]"
    by (simp add: rule_v1_def rule_v5_def)
  from v d' have "validate two_tag_definer False
      (new_Deinflection taberu [rule_v1, rule_v5] reason_past) = Inr (this', True)"
    by simp
  with h d' show ?thesis by (auto simp: rule_v1_def rule_v5_def)
qed

text \<open>
  Claim C7. In the tree the entry call builds, every definition stored on a node below
  the root has a rule tag among that node's rules, and the root stores the list the
  definer returned for the surface term as it is, whatever the tags.
\<close>

theorem stored_definitions_admissible:
  assumes "deinflect fuel definer table True (new_Deinflection t [] []) = Some (Inr (tree, v))"
  shows "definer t = Inr (definitions tree) \<and>
     (\<forall>c \<in> set (children tree). \<forall>m \<in> set (nodes c).
        \<forall>d \<in> set (definitions m). \<exists>rule \<in> set (rules m). rule \<in> set (drules d))"
proof -
  from assms obtain n where n: "fuel = Suc n" by (cases fuel) auto
  from deinflect_Suc_Inr[OF assms[unfolded n]] have "definer t = Inr (definitions tree)"
    by (auto simp: new_Deinflection_def)
  moreover from deinflect_admissible[OF assms]
  have "\<forall>c \<in> set (children tree). \<forall>m \<in> set (nodes c). admissible m"
    by (simp add: new_Deinflection_def)
  ultimately show ?thesis by (simp add: admissible_def)
qed

text \<open>
  With \<open>past_table\<close> and a definer that returns the same two definitions for every
  term: the root, whose rules are empty, keeps both; the child keeps them for its rule
  \<^verbatim>\<open>v1\<close>, which both carry.
\<close>

theorem stored_definitions_admissible_witness:
  "deinflect 2 two_tag_definer past_table True (new_Deinflection tabeta [] []) =
     Some (Inr (Deinflection
            [new_Deinflection tabeta [] [],
             Deinflection [new_Deinflection taberu [rule_v1] []] taberu [rule_v1] reason_past
               [Defn [rule_v5, rule_v1] (), Defn [rule_v1] ()]]
            tabeta [] [] [Defn [rule_v5, rule_v1] (), Defn [rule_v1] ()], True)) \<and>
   two_tag_definer tabeta = Inr [Defn [rule_v5, rule_v1] (), Defn [rule_v1] ()] \<and>
   (\<exists>rule \<in> set [rule_v1]. rule \<in> set (drules (Defn [rule_v5, rule_v1] ())))"
proof -
  let ?kid = "Deinflection [new_Deinflection taberu [rule_v1] []] taberu [rule_v1] reason_past
               [Defn [rule_v5, rule_v1] (), Defn [rule_v1] ()]"
  let ?tree = "Deinflection [new_Deinflection tabeta [] [], ?kid]
            tabeta [] [] [Defn [rule_v5, rule_v1] (), Defn [rule_v1] ()]"
  have h: "deinflect 2 two_tag_definer past_table True (new_Deinflection tabeta [] []) =
     Some (Inr (?tree, True))"
    by (simp add: engine_defs past_table_def two_tag_definer_def scenario_defs)
  from stored_definitions_admissible[OF h]
  have 1: "two_tag_definer tabeta = Inr (definitions ?tree)"
    and 2: "\<forall>c \<in> set (children ?tree). \<forall>m \<in> set (nodes c).
        \<forall>d \<in> set (definitions m). \<exists>rule \<in> set (rules m). rule \<in> set (drules d)"
    by blast+
  from 2 have "\<forall>d \<in> set (definitions ?kid). \<exists>rule \<in> set (rules ?kid). rule \<in> set (drules d)"
    by simp
  then have "\<exists>rule \<in> set [rule_v1]. rule \<in> set (drules (Defn [rule_v5, rule_v1] ()))"
    by simp
  with h 1 show ?thesis by simp
qed

subsection \<open>Viability\<close>

text \<open>
  Claim C1 says that \<^verbatim>\<open>deinflect\<close> returns no path when the definer finds nothing for
  any term, the stop-child counting only when a definition was accepted. The code
  pushes the stop-child whether or not \<^verbatim>\<open>valid\<close> is true, so every node has a child
  and every call that fulfils does so with \<open>True\<close>: with the empty table and a definer
  that finds nothing, the call for \<open>tabeta\<close> returns one path, without definitions.
\<close>

theorem no_definitions_still_one_path:
  "Deinflector_deinflect 1 [] tabeta empty_definer =
     Some (Inr [\<lparr>root = tabeta, path_rules = [], path_definitions = [], reasons = [],
                 source = Some tabeta\<rparr>])"
  by (simp add: Deinflector_deinflect_def new_Deinflection_def settle_def validate_def
      empty_definer_def)

text \<open>
  Claim C2 says that the scenario of \<open>past_table\<close>, \<open>tabeta\<close> and \<open>taberu_definer\<close>
  returns the single path of \<open>taberu\<close>. The code returns that path and, before or after
  it according to which promise fulfils first, the path of the root's stop-child, for
  which no definition was found.
\<close>

theorem past_scenario_two_paths:
  "Deinflector_deinflect 2 past_table tabeta taberu_definer =
     Some (Inr [\<lparr>root = tabeta, path_rules = [], path_definitions = [], reasons = [],
                 source = Some tabeta\<rparr>,
                \<lparr>root = taberu, path_rules = [rule_v1],
                 path_definitions = [Defn [rule_v1] ()], reasons = [reason_past],
                 source = Some tabeta\<rparr>])"
  by (simp add: engine_defs past_table_def taberu_definer_def scenario_defs)

subsection \<open>Terms of the nodes\<close>

text \<open>
  Claim C8 says that every node, the root included, has a term that is not empty, a
  term of length zero being rejected before any node is created. The facade builds the
  root for the term it is given without looking at its length: for the empty string the
  root and its stop-child have the empty term, and the call returns a path whose root
  is empty.
\<close>

theorem root_term_unchecked_counterexample:
  "deinflect 1 empty_definer [] True (new_Deinflection [] [] []) =
     Some (Inr (Deinflection [Deinflection [] [] [] [] []] [] [] [] [], True)) \<and>
   length (node_term (Deinflection [Deinflection [] [] [] [] []] [] [] [] []
              :: unit deinflection)) = 0 \<and>
   Deinflector_deinflect 1 [] [] empty_definer =
     Some (Inr [\<lparr>root = [], path_rules = [], path_definitions = [], reasons = [],
                 source = Some []\<rparr>])"
  by (simp add: engine_defs empty_definer_def)

text \<open>
  Claim C8, amended. When the surface term is not empty, every node of the tree has a
  term of length greater than zero; and whatever the node, the children the expansion
  constructs have one, since a rewritten term of length zero is skipped before its node
  is created.
\<close>

theorem terms_nonempty_below_nonempty_surface_term:
  assumes "deinflect fuel definer table True (new_Deinflection t [] []) =
      Some (Inr (tree :: 'a deinflection, v))"
    and "0 < length t"
  shows "(\<forall>m \<in> set (nodes tree). 0 < length (node_term m)) \<and>
     (\<forall>entry this. \<forall>c \<in> set (expand table entry (this :: 'a deinflection)).
        0 < length (node_term c))"
proof -
  from deinflect_terms_nonempty[OF assms(1)] assms(2)
  have "\<forall>m \<in> set (nodes tree). node_term m \<noteq> []"
    by (simp add: new_Deinflection_def)
  moreover have "0 < length (node_term c)"
    if "c \<in> set (expand table entry this)" for entry c and this :: "'a deinflection"
    using expand_props[OF that] by simp
  ultimately show ?thesis by simp
qed

text \<open>The six nodes of the tree of \<open>tabenakatta\<close>.\<close>

theorem terms_nonempty_below_nonempty_surface_term_witness:
  "deinflect 3 taberu_definer two_step_table True (new_Deinflection tabenakatta [] []) =
     Some (Inr (two_step_tree, True)) \<and>
   0 < length tabenakatta \<and>
   list_all (\<lambda>m. 0 < length (node_term m)) (nodes two_step_tree) \<and>
   length (nodes two_step_tree) = 6"
proof -
  have h: "deinflect 3 taberu_definer two_step_table True (new_Deinflection tabenakatta [] []) =
     Some (Inr (two_step_tree, True))"
    by (simp add: engine_defs two_step_table_def taberu_definer_def scenario_defs
        two_step_tree_def two_step_A_def two_step_B_def two_step_leaf_def)
  have l: "0 < length tabenakatta" by (simp add: tabenakatta_def)
  from terms_nonempty_below_nonempty_surface_term[OF h l]
  have "list_all (\<lambda>m. 0 < length (node_term m)) (nodes two_step_tree)"
    by (simp add: list_all_iff)
  moreover have "length (nodes two_step_tree) = 6"
    by (simp add: two_step_tree_def two_step_A_def two_step_B_def two_step_leaf_def
        new_Deinflection_def)
  ultimately show ?thesis using h l by simp
qed

subsection \<open>The paths\<close>

text \<open>
  Claim C9. Every path the facade returns has a \<^verbatim>\<open>source\<close>, and it is the surface
  term: the root always has a child, so \<^verbatim>\<open>gather\<close> runs its loop there and assigns the
  root's term last.
\<close>

theorem source_is_surface_term:
  assumes "Deinflector_deinflect fuel table t definer = Some (Inr paths)"
  shows "\<forall>p \<in> set paths. source p = Some t"
proof -
  from assms obtain tree v where
    d: "deinflect fuel definer table True (new_Deinflection t [] []) = Some (Inr (tree, v))"
    and paths: "paths = (if v then gather tree else [])"
    by (auto simp: Deinflector_deinflect_def split: option.splits sum.splits)
  from deinflect_root_fields[OF d] have "children tree \<noteq> []" "node_term tree = t"
    by (simp_all add: new_Deinflection_def)
  with paths show ?thesis by (auto dest: gather_source)
qed

text \<open>The three paths of \<open>tabenakatta\<close>, each with the surface term as its source.\<close>

theorem source_is_surface_term_witness:
  "Deinflector_deinflect 3 two_step_table tabenakatta taberu_definer =
     Some (Inr [\<lparr>root = tabenakatta, path_rules = [], path_definitions = [], reasons = [],
                 source = Some tabenakatta\<rparr>,
                \<lparr>root = tabenai, path_rules = [rule_adj_i], path_definitions = [],
                 reasons = [reason_past], source = Some tabenakatta\<rparr>,
                \<lparr>root = taberu, path_rules = [rule_v1],
                 path_definitions = [Defn [rule_v1] ()],
                 reasons = [reason_negative, reason_past], source = Some tabenakatta\<rparr>]) \<and>
   source \<lparr>root = taberu, path_rules = [rule_v1], path_definitions = [Defn [rule_v1] ()],
           reasons = [reason_negative, reason_past], source = Some tabenakatta\<rparr> =
     Some tabenakatta"
proof -
  have h: "Deinflector_deinflect 3 two_step_table tabenakatta taberu_definer =
     Some (Inr [\<lparr>root = tabenakatta, path_rules = [], path_definitions = [], reasons = [],
                 source = Some tabenakatta\<rparr>,
                \<lparr>root = tabenai, path_rules = [rule_adj_i], path_definitions = [],
                 reasons = [reason_past], source = Some tabenakatta\<rparr>,
                \<lparr>root = taberu, path_rules = [rule_v1],
                 path_definitions = [Defn [rule_v1] ()],
                 reasons = [reason_negative, reason_past], source = Some tabenakatta\<rparr>])"
    by (simp add: engine_defs two_step_table_def taberu_definer_def scenario_defs)
  from source_is_surface_term[OF h] h show ?thesis by simp
qed

text \<open>
  Claim C6 says that a path produced by two successive applications, of the reason
  \<open>r1\<close> and then of \<open>r2\<close>, has the reasons \<open>r2\<close>, \<open>r1\<close>. The keys of the table are
  any strings, the empty one included, and \<^verbatim>\<open>gather\<close> pushes a reason only when its
  length is positive: with \<open>unnamed_step_table\<close> the path of \<open>taberu\<close> has the one
  reason \<^verbatim>\<open>negative\<close>.
\<close>

theorem empty_reason_not_recorded_counterexample:
  "deinflect 3 taberu_definer unnamed_step_table True (new_Deinflection tabenakatta [] []) =
     Some (Inr (unnamed_tree, True)) \<and>
   ([unnamed_tree, unnamed_A, two_step_B, two_step_leaf],
    \<lparr>root = taberu, path_rules = [rule_v1], path_definitions = [Defn [rule_v1] ()],
     reasons = [reason_negative], source = Some tabenakatta\<rparr>)
     \<in> set (zip (chains unnamed_tree) (gather unnamed_tree)) \<and>
   reason unnamed_A = [] \<and> reason two_step_B = reason_negative \<and>
   reasons \<lparr>root = taberu, path_rules = [rule_v1], path_definitions = [Defn [rule_v1] ()],
     reasons = [reason_negative], source = Some tabenakatta\<rparr> \<noteq>
     [reason two_step_B, reason unnamed_A] \<and>
   Deinflector_deinflect 3 unnamed_step_table tabenakatta taberu_definer =
     Some (Inr [\<lparr>root = tabenakatta, path_rules = [], path_definitions = [], reasons = [],
                 source = Some tabenakatta\<rparr>,
                \<lparr>root = tabenai, path_rules = [rule_adj_i], path_definitions = [],
                 reasons = [], source = Some tabenakatta\<rparr>,
                \<lparr>root = taberu, path_rules = [rule_v1],
                 path_definitions = [Defn [rule_v1] ()],
                 reasons = [reason_negative], source = Some tabenakatta\<rparr>])"
  by (simp add: engine_defs unnamed_step_table_def taberu_definer_def scenario_defs
      unnamed_tree_def unnamed_A_def two_step_B_def two_step_leaf_def)

text \<open>
  Claim C6, amended. The facade returns \<open>gather\<close> of the tree it built, one path for
  each chain from the root to a leaf. The reasons of a path are the non-empty reasons of
  its chain in reverse, the deepest application first. For a chain of the root, a node
  \<open>A\<close>, a node \<open>B\<close> and the stop-child of \<open>B\<close>, where the reasons that produced \<open>A\<close>
  and \<open>B\<close> are not the empty string, the reasons are that of \<open>B\<close>, then that of \<open>A\<close>.
\<close>

theorem reasons_deepest_first:
  assumes "deinflect fuel definer table True (new_Deinflection t [] []) = Some (Inr (tree, v))"
    and "(ch, p) \<in> set (zip (chains tree) (gather tree))"
  shows "Deinflector_deinflect fuel table t definer = Some (Inr (gather tree)) \<and>
     reasons p = rev (filter (\<lambda>r. 0 < length r) (map reason ch)) \<and>
     (\<forall>R A B S. ch = [R, A, B, S] \<and> 0 < length (reason A) \<and> 0 < length (reason B) \<longrightarrow>
        reasons p = [reason B, reason A])"
proof -
  from deinflect_root_fields[OF assms(1)] have v: v and r: "reason tree = []"
    by (simp_all add: new_Deinflection_def)
  from assms(1) v have 1: "Deinflector_deinflect fuel table t definer = Some (Inr (gather tree))"
    by (simp add: Deinflector_deinflect_def)
  from assms(2) have ch: "ch \<in> set (chains tree)" by (auto dest: set_zip_leftD)
  from chains_last_leaf[OF ch] have leaf: "last ch \<in> set (nodes tree)" "children (last ch) = []"
    and hd: "hd ch = tree" by simp_all
  from deinflect_leaves[OF assms(1)] leaf have last: "reason (last ch) = []"
    by (simp add: new_Deinflection_def)
  from chains_nonempty[OF ch] have "ch = butlast ch @ [last ch]" by simp
  then have "map reason ch = map reason (butlast ch) @ [reason (last ch)]"
    by (metis list.simps(8,9) map_append)
  with last have "filter (\<lambda>r. 0 < length r) (map reason ch) =
      filter (\<lambda>r. 0 < length r) (map reason (butlast ch))"
    by simp
  with gather_of_chain[OF assms(2)]
  have 2: "reasons p = rev (filter (\<lambda>r. 0 < length r) (map reason ch))" by simp
  have 3: "reasons p = [reason B, reason A]"
    if "ch = [R, A, B, S]" "0 < length (reason A)" "0 < length (reason B)" for R A B S
  proof -
    from that(1) hd r last have "reason R = []" "reason S = []" by simp_all
    with 2 that show ?thesis by simp
  qed
  from 1 2 3 show ?thesis by blast
qed

text \<open>
  For \<open>tabenakatta\<close>: \<^verbatim>\<open>past\<close> is applied first and \<^verbatim>\<open>negative\<close> second, and the path of
  \<open>taberu\<close> lists \<^verbatim>\<open>negative\<close> before \<^verbatim>\<open>past\<close>.
\<close>

theorem reasons_deepest_first_witness:
  "deinflect 3 taberu_definer two_step_table True (new_Deinflection tabenakatta [] []) =
     Some (Inr (two_step_tree, True)) \<and>
   ([two_step_tree, two_step_A, two_step_B, two_step_leaf],
    \<lparr>root = taberu, path_rules = [rule_v1], path_definitions = [Defn [rule_v1] ()],
     reasons = [reason_negative, reason_past], source = Some tabenakatta\<rparr>)
     \<in> set (zip (chains two_step_tree) (gather two_step_tree)) \<and>
   reason two_step_A = reason_past \<and> reason two_step_B = reason_negative \<and>
   reasons \<lparr>root = taberu, path_rules = [rule_v1], path_definitions = [Defn [rule_v1] ()],
     reasons = [reason_negative, reason_past], source = Some tabenakatta\<rparr> =
     [reason two_step_B, reason two_step_A]"
proof -
  let ?p = "\<lparr>root = taberu, path_rules = [rule_v1], path_definitions = [Defn [rule_v1] ()],
     reasons = [reason_negative, reason_past], source = Some tabenakatta\<rparr>"
  have h: "deinflect 3 taberu_definer two_step_table True (new_Deinflection tabenakatta [] []) =
     Some (Inr (two_step_tree, True))"
    by (simp add: engine_defs two_step_table_def taberu_definer_def scenario_defs
        two_step_tree_def two_step_A_def two_step_B_def two_step_leaf_def)
  have z: "([two_step_tree, two_step_A, two_step_B, two_step_leaf], ?p)
     \<in> set (zip (chains two_step_tree) (gather two_step_tree))"
    by (simp add: two_step_tree_def two_step_A_def two_step_B_def two_step_leaf_def
        new_Deinflection_def reason_past_def reason_negative_def)
  have a: "reason two_step_A = reason_past" "reason two_step_B = reason_negative"
    by (simp_all add: two_step_A_def two_step_B_def)
  have n: "0 < length (reason two_step_A)" "0 < length (reason two_step_B)"
    by (simp_all add: a reason_past_def reason_negative_def)
  from reasons_deepest_first[OF h z] n
  have "reasons ?p = [reason two_step_B, reason two_step_A]" by blast
  with h z a show ?thesis by simp
qed

subsection \<open>A definer that rejects\<close>

text \<open>
  Claim C4 says that a rejection of the definer stays with the node that made the
  lookup and counts as an empty answer, the call still fulfilling. With \<open>past_table\<close>
  and a definer that answers for \<open>tabeta\<close> and rejects for \<open>taberu\<close>, the lookup of the
  child rejects and the whole call rejects.
\<close>

theorem rejection_not_confined_counterexample:
  "failing_definer tabeta = Inr [Defn [] ()] \<and>
   failing_definer taberu = Inl DefinerRejected \<and>
   Deinflector_deinflect 2 past_table tabeta failing_definer = Some (Inl DefinerRejected)"
  by (simp add: engine_defs past_table_def failing_definer_def scenario_defs)

text \<open>
  Claim C4, amended. No callback handles a rejection: when the definer rejects for a
  term the search looks up, the rejection passes through \<^verbatim>\<open>Promise.all\<close> at every
  ancestor, and a call that returns a promise returns one that rejects.
\<close>

theorem definer_rejection_propagates:
  assumes "Deinflector_deinflect fuel table t definer = Some res"
    and "u \<in> set (lookups fuel table True (new_Deinflection t [] [] :: 'a deinflection))"
    and "(definer :: 'a definer) u = Inl e"
  shows "res = Inl DefinerRejected"
proof -
  from assms(1) obtain r where
    d: "deinflect fuel definer table True (new_Deinflection t [] []) = Some r"
    by (auto simp: Deinflector_deinflect_def split: option.splits)
  from deinflect_rejects[OF d assms(2,3)] obtain e' where "r = Inl e'" by blast
  with assms(1) d have "res = Inl e'" by (simp add: Deinflector_deinflect_def)
  then show ?thesis by (cases e') simp
qed

text \<open>The scenario of the counterexample: the second lookup rejects, and so does the call.\<close>

theorem definer_rejection_propagates_witness:
  "lookups 2 past_table True (new_Deinflection tabeta [] [] :: unit deinflection) =
     [tabeta, taberu] \<and>
   failing_definer taberu = Inl DefinerRejected \<and>
   Deinflector_deinflect 2 past_table tabeta failing_definer = Some (Inl DefinerRejected)"
proof -
  have l: "lookups 2 past_table True (new_Deinflection tabeta [] [] :: unit deinflection) =
     [tabeta, taberu]"
    by (simp add: engine_defs past_table_def scenario_defs)
  have f: "failing_definer taberu = Inl DefinerRejected"
    by (simp add: failing_definer_def)
  have "\<exists>res. Deinflector_deinflect 2 past_table tabeta failing_definer = Some res"
    by (simp add: engine_defs past_table_def failing_definer_def scenario_defs)
  then obtain res where r: "Deinflector_deinflect 2 past_table tabeta failing_definer = Some res"
    by blast
  have u: "taberu \<in> set (lookups 2 past_table True (new_Deinflection tabeta [] [] :: unit deinflection))"
    by (simp add: l)
  from definer_rejection_propagates[OF r u f] r l f show ?thesis by simp
qed

subsection \<open>Termination\<close>

text \<open>
  Claim C5 says that the search terminates for every table, a cap on the depth or on
  the visited terms stopping it with an error. The code has no cap: with
  \<open>same_length_table\<close>, whose variant rewrites \<open>taberu\<close> to itself, no amount of fuel
  lets the call for \<open>taberu\<close> return.
\<close>

theorem search_unbounded_counterexample:
  "\<not> (\<exists>fuel res.
        Deinflector_deinflect fuel same_length_table taberu taberu_definer = Some res)"
  by (simp add: Deinflector_deinflect_def same_length_diverges new_Deinflection_def)

text \<open>
  Claim C5, amended. When the \<^verbatim>\<open>kanaOut\<close> of every variant of the table is shorter
  than its \<^verbatim>\<open>kanaIn\<close>, every rewrite shortens the term and the search terminates: the
  call returns with fuel one more than the length of the surface term, and with any
  more fuel it returns the same.
\<close>

theorem search_terminates_when_variants_shorten:
  assumes "\<forall>(r, vs) \<in> set table. \<forall>v \<in> set vs. length (kanaOut v) < length (kanaIn v)"
  shows "\<exists>res. \<forall>k. Deinflector_deinflect (Suc (length t) + k) table t definer = Some res"
proof -
  from deinflect_terminates[OF assms, of "new_Deinflection t [] []" "Suc (length t)" definer True]
  obtain r where
    "deinflect (Suc (length t)) definer table True (new_Deinflection t [] []) = Some r"
    by (auto simp: new_Deinflection_def)
  from deinflect_fuel_mono[OF this]
  have "\<forall>k. deinflect (Suc (length t) + k) definer table True (new_Deinflection t [] []) = Some r"
    by blast
  then have "\<forall>k. Deinflector_deinflect (Suc (length t) + k) table t definer =
      Some (case r of Inl e \<Rightarrow> Inl e
            | Inr (node, success) \<Rightarrow> Inr (if success then gather node else []))"
    by (auto simp: Deinflector_deinflect_def split: sum.splits)
  then show ?thesis by blast
qed

text \<open>Both variants of \<open>two_step_table\<close> shorten the term.\<close>

theorem search_terminates_when_variants_shorten_witness:
  "list_all (\<lambda>(r, vs). list_all (\<lambda>v. length (kanaOut v) < length (kanaIn v)) vs)
     two_step_table \<and>
   (\<exists>res. \<forall>k. Deinflector_deinflect (Suc (length tabenakatta) + k) two_step_table tabenakatta
      taberu_definer = Some res)"
proof -
  have h: "\<forall>(r, vs) \<in> set two_step_table. \<forall>v \<in> set vs. length (kanaOut v) < length (kanaIn v)"
    by (simp add: two_step_table_def scenario_defs)
  from search_terminates_when_variants_shorten[OF h, of tabenakatta taberu_definer] h
  show ?thesis by (simp add: list_all_iff case_prod_unfold)
qed

subsection \<open>The order of the children\<close>

text \<open>
  Claim C3 says that the children of every node are in the order of the table whatever
  the order in which the definer's promises settle, two runs that differ only in that
  order giving the same trees and the same paths. With \<open>past_table\<close> and the same
  answers, the root's children are the stop-child then the child of \<^verbatim>\<open>past\<close> when the
  promises are settled at once, and the other way round when the promise for \<open>tabeta\<close>
  settles late; the paths come in the same two orders. With promises settled at once
  and \<open>three_reason_table\<close>, the child of \<^verbatim>\<open>plain\<close> is pushed before the child of
  \<^verbatim>\<open>past\<close>, whose own child delays it, though the table lists \<^verbatim>\<open>past\<close> first.
\<close>

theorem children_in_completion_order_counterexample:
  "(\<forall>u. snd (prompt taberu_definer u) = snd (late_for tabeta taberu_definer u)) \<and>
   map_option (map_sum id (\<lambda>(fulfilled, tree, valid). map reason (children tree)))
     (deinflect_timed 2 (prompt taberu_definer) past_table True (new_Deinflection tabeta [] [])) =
     Some (Inr [[], reason_past]) \<and>
   map_option (map_sum id (\<lambda>(fulfilled, tree, valid). map reason (children tree)))
     (deinflect_timed 2 (late_for tabeta taberu_definer) past_table True
        (new_Deinflection tabeta [] [])) =
     Some (Inr [reason_past, []]) \<and>
   Deinflector_deinflect_timed 2 past_table tabeta (prompt taberu_definer) =
     Some (Inr [\<lparr>root = tabeta, path_rules = [], path_definitions = [], reasons = [],
                 source = Some tabeta\<rparr>,
                \<lparr>root = taberu, path_rules = [rule_v1],
                 path_definitions = [Defn [rule_v1] ()], reasons = [reason_past],
                 source = Some tabeta\<rparr>]) \<and>
   Deinflector_deinflect_timed 2 past_table tabeta (late_for tabeta taberu_definer) =
     Some (Inr [\<lparr>root = taberu, path_rules = [rule_v1],
                 path_definitions = [Defn [rule_v1] ()], reasons = [reason_past],
                 source = Some tabeta\<rparr>,
                \<lparr>root = tabeta, path_rules = [], path_definitions = [], reasons = [],
                 source = Some tabeta\<rparr>]) \<and>
   map fst three_reason_table = [reason_past, reason_negative, reason_plain] \<and>
   map_option (map_sum id (\<lambda>(fulfilled, tree, valid). map reason (children tree)))
     (deinflect_timed 3 (prompt taberu_definer) three_reason_table True
        (new_Deinflection tabenakatta [] [])) =
     Some (Inr [[], reason_plain, reason_past])"
  by (simp add: timed_defs engine_defs three_reason_table_def two_step_table_def past_table_def
      taberu_definer_def scenario_defs reason_plain_def)

text \<open>
  Claim C3, amended. Which children a node has does not depend on when the definer's
  promises settle, their order does: two runs with the same answers return the same
  tree up to the order of the children at each node, and the same paths up to their
  order.
\<close>

theorem completion_order_only_reorders:
  assumes "\<forall>u. snd (d1 u) = snd (d2 u)"
  shows "map_option shape_timed
           (deinflect_timed fuel d1 table True (new_Deinflection t [] [])) =
         map_option shape_timed
           (deinflect_timed fuel d2 table True (new_Deinflection t [] [])) \<and>
         map_option (map_sum id mset) (Deinflector_deinflect_timed fuel table t d1) =
         map_option (map_sum id mset) (Deinflector_deinflect_timed fuel table t d2)"
proof -
  from assms have "untimed d1 = untimed d2" by (auto simp: untimed_def)
  then show ?thesis by (simp add: deinflect_timed_shape facade_timed_paths)
qed

text \<open>
  With \<open>three_reason_table\<close>, once with promises settled at once and once with the
  promise for \<open>tabenai\<close> settling late: the last two paths change places.
\<close>

theorem completion_order_only_reorders_witness:
  "(\<forall>u. snd (prompt taberu_definer u) = snd (late_for tabenai taberu_definer u)) \<and>
   map_option (map_sum id (map reasons))
     (Deinflector_deinflect_timed 3 three_reason_table tabenakatta (prompt taberu_definer)) =
     Some (Inr [[], [reason_plain], [reason_past], [reason_negative, reason_past]]) \<and>
   map_option (map_sum id (map reasons))
     (Deinflector_deinflect_timed 3 three_reason_table tabenakatta
        (late_for tabenai taberu_definer)) =
     Some (Inr [[], [reason_plain], [reason_negative, reason_past], [reason_past]]) \<and>
   map_option (map_sum id mset)
     (Deinflector_deinflect_timed 3 three_reason_table tabenakatta (prompt taberu_definer)) =
   map_option (map_sum id mset)
     (Deinflector_deinflect_timed 3 three_reason_table tabenakatta
        (late_for tabenai taberu_definer))"
proof -
  have h: "\<forall>u. snd (prompt taberu_definer u) = snd (late_for tabenai taberu_definer u)"
    by (simp add: prompt_def late_for_def)
  have 1: "map_option (map_sum id (map reasons))
     (Deinflector_deinflect_timed 3 three_reason_table tabenakatta (prompt taberu_definer)) =
     Some (Inr [[], [reason_plain], [reason_past], [reason_negative, reason_past]])"
    by (simp add: timed_defs engine_defs three_reason_table_def two_step_table_def
        taberu_definer_def scenario_defs reason_plain_def)
  have 2: "map_option (map_sum id (map reasons))
     (Deinflector_deinflect_timed 3 three_reason_table tabenakatta
        (late_for tabenai taberu_definer)) =
     Some (Inr [[], [reason_plain], [reason_negative, reason_past], [reason_past]])"
    by (simp add: timed_defs engine_defs three_reason_table_def two_step_table_def
        taberu_definer_def scenario_defs reason_plain_def)
  from completion_order_only_reorders[OF h, of 3 three_reason_table tabenakatta] h 1 2
  show ?thesis by blast
qed

end
